theory Spec2Isabelle
  imports Main "HOL-Library.Word"
begin

section \<open>Data model of TinyTask\<close>

text \<open>
  On the Arduino targets of the library \<^verbatim>\<open>long\<close> and \<^verbatim>\<open>unsigned long\<close> are
  32 bits wide (the source speaks of "the 32 bit millis() and micros()"). Both are
  modelled as \<open>32 word\<close>: arithmetic wraps, an unsigned comparison is the order of
  words, a signed comparison goes through \<open>sint\<close>. Converting between the two types
  keeps the bit pattern.
\<close>

type_synonym ulong = "32 word"
type_synonym long = "32 word"

text \<open>
  Function pointers and the \<^verbatim>\<open>void*\<close> argument are opaque to the library: a number
  names them. A function pointer that may be \<^verbatim>\<open>NULL\<close> is an \<open>option\<close>.
\<close>

type_synonym fn = nat
type_synonym ptr = nat

text \<open>
  One reading of the hardware counters: what \<^verbatim>\<open>millis()\<close> and \<^verbatim>\<open>micros()\<close> return at
  that instant. The library only reads them.
\<close>

record ticks =
  millis :: ulong
  micros :: ulong

text \<open>The private members of class \<^verbatim>\<open>TinyTask\<close> (TinyTask.h).\<close>

record TinyTask =
  periodic :: bool
  active :: bool
  microseconds :: bool
  pointerParam :: ptr
  interval :: long
  timeout :: ulong
  taskToCall :: "fn option"
  taskToCallTakesPtr :: "fn option"

text \<open>
  What the host observes of \<^verbatim>\<open>callTask()\<close>: which function was entered, with which
  argument, and the members of the object at that moment.
\<close>

datatype call = Call_taskToCall fn | Call_taskToCallTakesPtr fn ptr

type_synonym invocation = "call \<times> TinyTask"

section \<open>Operations\<close>

text \<open>
  The constructors. \<open>raw\<close> is the storage the object is built in: members without an
  initialiser (\<^verbatim>\<open>periodic\<close>, \<^verbatim>\<open>pointerParam\<close>, \<^verbatim>\<open>interval\<close>, \<^verbatim>\<open>timeout\<close>) keep what
  is there (zeros for an object of static storage, anything otherwise).
\<close>

definition TinyTask_TaskToCall :: "fn option \<Rightarrow> TinyTask \<Rightarrow> TinyTask" where
  "TinyTask_TaskToCall f raw =
     raw\<lparr>active := False, microseconds := False, taskToCall := f, taskToCallTakesPtr := None\<rparr>"

definition TinyTask_TaskToCallTakesPtr :: "fn option \<Rightarrow> TinyTask \<Rightarrow> TinyTask" where
  "TinyTask_TaskToCallTakesPtr g raw =
     raw\<lparr>active := False, microseconds := False, taskToCallTakesPtr := g, taskToCall := None\<rparr>"

text \<open>
  \<^verbatim>\<open>callIn(long interval)\<close>. The parameter is \<open>interval'\<close>; the test of the first line
  reads the member \<^verbatim>\<open>TinyTask::interval\<close>, as the source does.
\<close>

definition callIn :: "ticks \<Rightarrow> long \<Rightarrow> TinyTask \<Rightarrow> TinyTask \<times> bool" where
  "callIn t interval' s =
     (if sint (interval s) < 0 then (s, False)
      else
        let s1 = (if microseconds s then s\<lparr>timeout := micros t + interval'\<rparr>
                  else s\<lparr>timeout := millis t + interval'\<rparr>)
        in (s1\<lparr>periodic := False, active := True\<rparr>, True))"

text \<open>
  \<^verbatim>\<open>callAt(unsigned long futureTime)\<close>. Both operands of the subtraction are
  \<^verbatim>\<open>unsigned long\<close>, so the difference is compared with 0 as an unsigned value.
\<close>

definition callAt :: "ticks \<Rightarrow> ulong \<Rightarrow> TinyTask \<Rightarrow> TinyTask \<times> bool" where
  "callAt t futureTime s =
     (if (if microseconds s then futureTime - micros t < 0 else futureTime - millis t < 0)
      then (s, False)
      else (s\<lparr>timeout := futureTime, periodic := False, active := True\<rparr>, True))"

text \<open>\<^verbatim>\<open>callEvery(long interval)\<close>: here the test reads the parameter.\<close>

definition callEvery :: "ticks \<Rightarrow> long \<Rightarrow> TinyTask \<Rightarrow> TinyTask \<times> bool" where
  "callEvery t interval' s =
     (if sint interval' < 0 then (s, False)
      else
        let s1 = s\<lparr>interval := interval'\<rparr>;
            s2 = (if microseconds s1 then s1\<lparr>timeout := micros t + interval'\<rparr>
                  else s1\<lparr>timeout := millis t + interval'\<rparr>)
        in (s2\<lparr>periodic := True, active := True\<rparr>, True))"

text \<open>
  The overloads with a pointer store the pointer, call the overload without it as a
  statement, and end without a \<^verbatim>\<open>return\<close>. The source gives their \<^verbatim>\<open>boolean\<close>
  result no value, so only the members they leave are modelled: those the inner call
  leaves.
\<close>

definition callIn_ptr :: "ticks \<Rightarrow> long \<Rightarrow> ptr \<Rightarrow> TinyTask \<Rightarrow> TinyTask" where
  "callIn_ptr t interval' p s = fst (callIn t interval' (s\<lparr>pointerParam := p\<rparr>))"

definition callAt_ptr :: "ticks \<Rightarrow> ulong \<Rightarrow> ptr \<Rightarrow> TinyTask \<Rightarrow> TinyTask" where
  "callAt_ptr t futureTime p s = fst (callAt t futureTime (s\<lparr>pointerParam := p\<rparr>))"

definition callEvery_ptr :: "ticks \<Rightarrow> long \<Rightarrow> ptr \<Rightarrow> TinyTask \<Rightarrow> TinyTask" where
  "callEvery_ptr t interval' p s = fst (callEvery t interval' (s\<lparr>pointerParam := p\<rparr>))"

text \<open>
  \<^verbatim>\<open>remaining()\<close>. \<^verbatim>\<open>timeLeft\<close> is an \<^verbatim>\<open>unsigned long\<close>; the test \<^verbatim>\<open>timeLeft < 0\<close> is the
  unsigned one, and the value returned as \<^verbatim>\<open>long\<close> has the bits of \<^verbatim>\<open>timeLeft\<close>.
\<close>

definition remaining :: "ticks \<Rightarrow> TinyTask \<Rightarrow> long" where
  "remaining t s =
     (if \<not> active s then - 1
      else
        let timeLeft = (if microseconds s then timeout s - micros t else timeout s - millis t)
        in if timeLeft < 0 then 0 else timeLeft)"

definition cancel :: "TinyTask \<Rightarrow> TinyTask" where
  "cancel s = s\<lparr>active := False\<rparr>"

definition useMillis :: "TinyTask \<Rightarrow> TinyTask" where
  "useMillis s = s\<lparr>microseconds := False\<rparr>"

definition useMicros :: "TinyTask \<Rightarrow> TinyTask" where
  "useMicros s = s\<lparr>microseconds := True\<rparr>"

definition callTask :: "TinyTask \<Rightarrow> invocation list" where
  "callTask s =
     (case taskToCall s of
        Some f \<Rightarrow> [(Call_taskToCall f, s)]
      | None \<Rightarrow>
          (case taskToCallTakesPtr s of
             Some g \<Rightarrow> [(Call_taskToCallTakesPtr g (pointerParam s), s)]
           | None \<Rightarrow> []))"

text \<open>
  The \<^verbatim>\<open>while\<close> of \<^verbatim>\<open>loop()\<close>. Every evaluation of its condition calls \<^verbatim>\<open>remaining()\<close>,
  which reads the counter again: \<open>clk n\<close> is the reading of the \<open>n\<close>-th call of
  \<^verbatim>\<open>remaining()\<close> made by this \<^verbatim>\<open>loop()\<close>. The loop need not end: \<open>None\<close> is a
  \<^verbatim>\<open>loop()\<close> that does not return.
\<close>

partial_function (option) loop_while :: "(nat \<Rightarrow> ticks) \<Rightarrow> nat \<Rightarrow> TinyTask \<Rightarrow> TinyTask option" where
  "loop_while clk n s =
     (if sint (remaining (clk n) s) \<le> 0
      then loop_while clk (Suc n) (s\<lparr>timeout := timeout s + interval s\<rparr>)
      else Some s)"

declare loop_while.simps [code]

text \<open>
  \<^verbatim>\<open>loop()\<close>: the members as \<^verbatim>\<open>loop()\<close> itself leaves them and the callbacks it
  entered, in order. The first call of \<^verbatim>\<open>remaining()\<close> gets the reading \<open>clk 0\<close>, the
  \<^verbatim>\<open>while\<close> the readings from \<open>clk 1\<close> on. The body of a callback is host code and is
  not part of the library.
\<close>

definition loop :: "(nat \<Rightarrow> ticks) \<Rightarrow> TinyTask \<Rightarrow> (TinyTask \<times> invocation list) option" where
  "loop clk s =
     (if active s then
        (if sint (remaining (clk 0) s) \<le> 0 then
           (if periodic s then
              (case loop_while clk 1 s of
                 None \<Rightarrow> None
               | Some s' \<Rightarrow> Some (s', callTask s'))
            else
              let s' = s\<lparr>active := False\<rparr> in Some (s', callTask s'))
         else Some (s, []))
      else Some (s, []))"

section \<open>Notions used to state the properties\<close>

text \<open>The counter a task consults in a reading, by its \<^verbatim>\<open>microseconds\<close> flag.\<close>

definition tick :: "ticks \<Rightarrow> TinyTask \<Rightarrow> ulong" where
  "tick t s = (if microseconds s then micros t else millis t)"

text \<open>The members after \<open>k\<close> rounds of the body of the \<^verbatim>\<open>while\<close>.\<close>

definition advance :: "TinyTask \<Rightarrow> nat \<Rightarrow> TinyTask" where
  "advance s k = s\<lparr>timeout := timeout s + of_nat k * interval s\<rparr>"

text \<open>
  The host's main loop, as in the sketch at the head of TinyTask.cpp: one call of
  \<^verbatim>\<open>loop()\<close> per round, each with its own readings of the counter. The result
  collects the callbacks entered over all the rounds.
\<close>

fun host_loop :: "(nat \<Rightarrow> ticks) list \<Rightarrow> TinyTask \<Rightarrow> (TinyTask \<times> invocation list) option" where
  "host_loop [] s = Some (s, [])"
| "host_loop (clk # clks) s =
     (case loop clk s of
        None \<Rightarrow> None
      | Some (s', cs) \<Rightarrow>
          (case host_loop clks s' of
             None \<Rightarrow> None
           | Some (s'', cs') \<Rightarrow> Some (s'', cs @ cs')))"

text \<open>
  The number of rounds of the \<^verbatim>\<open>while\<close> that bring a task, late by \<open>- d\<close> ticks at
  the reading \<open>t\<close>, strictly ahead of that reading.
\<close>

definition rounds :: "ticks \<Rightarrow> TinyTask \<Rightarrow> nat" where
  "rounds t s = nat (- sint (timeout s - tick t s) div sint (interval s)) + 1"

text \<open>A tick source that advances by one tick between two readings.\<close>

definition counting :: "nat \<Rightarrow> ticks" where
  "counting n = \<lparr>millis = of_nat n, micros = of_nat n\<rparr>"

text \<open>
  A tick source that starts at \<open>v\<close> and advances by \<open>d\<close> ticks between two readings.
\<close>

definition stepping :: "ulong \<Rightarrow> ulong \<Rightarrow> nat \<Rightarrow> ticks" where
  "stepping v d n = \<lparr>millis = v + of_nat n * d, micros = v + of_nat n * d\<rparr>"

text \<open>A tick source that stands still at \<open>v\<close> over all the readings of a call.\<close>

definition standing :: "ulong \<Rightarrow> nat \<Rightarrow> ticks" where
  "standing v n = \<lparr>millis = v, micros = v\<rparr>"

text \<open>
  An object of static storage (all members zero before the constructor runs), built
  with the plain callback number 1, as \<^verbatim>\<open>TinyTask blink(blinkTask);\<close> in the sketch.
\<close>

definition zeroed :: TinyTask where
  "zeroed = \<lparr>periodic = False, active = False, microseconds = False, pointerParam = 0,
     interval = 0, timeout = 0, taskToCall = None, taskToCallTakesPtr = None\<rparr>"

definition blink :: TinyTask where
  "blink = TinyTask_TaskToCall (Some 1) zeroed"

section \<open>Facts about the operations\<close>

lemma remaining_active: "active s \<Longrightarrow> remaining t s = timeout s - tick t s"
  by (simp add: remaining_def tick_def)

lemma remaining_inactive: "\<not> active s \<Longrightarrow> remaining t s = - 1"
  by (simp add: remaining_def)

lemma advance_0: "advance s 0 = s"
  by (simp add: advance_def)

lemma advance_Suc: "advance (s\<lparr>timeout := timeout s + interval s\<rparr>) j = advance s (Suc j)"
  by (simp add: advance_def algebra_simps)

lemma loop_while_exit: "0 < sint (remaining (clk n) s) \<Longrightarrow> loop_while clk n s = Some s"
  by (subst loop_while.simps) simp

lemma loop_while_step:
  "sint (remaining (clk n) s) \<le> 0 \<Longrightarrow>
   loop_while clk n s = loop_while clk (Suc n) (s\<lparr>timeout := timeout s + interval s\<rparr>)"
  by (subst loop_while.simps) simp

lemma loop_while_skip:
  "(\<And>j. j < k \<Longrightarrow> sint (remaining (clk (n + j)) (advance s j)) \<le> 0) \<Longrightarrow>
   loop_while clk n s = loop_while clk (n + k) (advance s k)"
proof (induction k arbitrary: n s)
  case 0
  show ?case by (simp add: advance_0)
next
  case (Suc k)
  have "sint (remaining (clk (n + 0)) (advance s 0)) \<le> 0"
    by (rule Suc.prems) simp
  then have first: "sint (remaining (clk n) s) \<le> 0"
    by (simp add: advance_0)
  have rest: "sint (remaining (clk (Suc n + j)) (advance (s\<lparr>timeout := timeout s + interval s\<rparr>) j)) \<le> 0"
    if "j < k" for j
    using Suc.prems [of "Suc j"] that by (simp add: advance_Suc)
  have "loop_while clk n s = loop_while clk (Suc n) (s\<lparr>timeout := timeout s + interval s\<rparr>)"
    using first by (rule loop_while_step)
  also have "\<dots> = loop_while clk (Suc n + k) (advance (s\<lparr>timeout := timeout s + interval s\<rparr>) k)"
    using rest by (rule Suc.IH)
  finally show ?case by (simp add: advance_Suc)
qed

lemma loop_while_Some_exit:
  assumes ret: "loop_while clk n s = Some y"
  shows "\<exists>j. 0 < sint (remaining (clk (n + j)) (advance s j))"
proof (rule loop_while.raw_induct
    [where P = "\<lambda>c m u v. \<exists>j. 0 < sint (remaining (c (m + j)) (advance u j))", OF _ ret])
  fix lw :: "(nat \<Rightarrow> ticks) \<Rightarrow> nat \<Rightarrow> TinyTask \<Rightarrow> TinyTask option"
  fix c m u v
  assume IH: "\<And>c m u v. lw c m u = Some v \<Longrightarrow>
                \<exists>j. 0 < sint (remaining (c (m + j)) (advance u j))"
  assume body: "(if sint (remaining (c m) u) \<le> 0
                 then lw c (Suc m) (u\<lparr>timeout := timeout u + interval u\<rparr>)
                 else Some u) = Some v"
  show "\<exists>j. 0 < sint (remaining (c (m + j)) (advance u j))"
  proof (cases "sint (remaining (c m) u) \<le> 0")
    case True
    with body have "lw c (Suc m) (u\<lparr>timeout := timeout u + interval u\<rparr>) = Some v"
      by simp
    then obtain j where
      "0 < sint (remaining (c (Suc m + j)) (advance (u\<lparr>timeout := timeout u + interval u\<rparr>) j))"
      using IH by blast
    then have "0 < sint (remaining (c (m + Suc j)) (advance u (Suc j)))"
      by (simp add: advance_Suc)
    then show ?thesis ..
  next
    case False
    then have "0 < sint (remaining (c (m + 0)) (advance u 0))"
      by (simp add: advance_0)
    then show ?thesis ..
  qed
qed

lemma loop_while_diverge:
  "(\<And>j. sint (remaining (clk (n + j)) (advance s j)) \<le> 0) \<Longrightarrow> loop_while clk n s = None"
proof (cases "loop_while clk n s")
  case None
  then show ?thesis .
next
  case (Some y)
  assume a: "\<And>j. sint (remaining (clk (n + j)) (advance s j)) \<le> 0"
  from loop_while_Some_exit [OF Some] obtain j where "0 < sint (remaining (clk (n + j)) (advance s j))" ..
  with a [of j] show ?thesis by simp
qed

lemma sint_add_ticks:
  fixes x i :: "32 word"
  assumes "0 \<le> sint i" and "sint x + int j * sint i < 2 ^ 31"
  shows "sint (x + of_nat j * i) = sint x + int j * sint i"
  using assms
proof (induction j)
  case 0
  show ?case by simp
next
  case (Suc j)
  have le: "int j * sint i \<le> int (Suc j) * sint i"
    using Suc.prems(1) by (simp add: algebra_simps)
  then have "sint x + int j * sint i < 2 ^ 31"
    using Suc.prems(2) by linarith
  with Suc have ih: "sint (x + of_nat j * i) = sint x + int j * sint i" by simp
  have lo: "- (2 ^ 31) \<le> sint x"
    using sint_ge [of x] by simp
  have "0 \<le> int j * sint i" using Suc.prems(1) by simp
  then have lo': "- (2 ^ 31) \<le> sint x + int j * sint i + sint i"
    using lo Suc.prems(1) by linarith
  have hi': "sint x + int j * sint i + sint i < 2 ^ 31"
    using Suc.prems(2) by (simp add: algebra_simps)
  have "x + of_nat (Suc j) * i = (x + of_nat j * i) + i"
    by (simp add: algebra_simps)
  then have "sint (x + of_nat (Suc j) * i) = signed_take_bit 31 (sint (x + of_nat j * i) + sint i)"
    by (simp only: sint_word_add) simp
  also have "\<dots> = sint x + int j * sint i + sint i"
    unfolding ih using lo' hi' by (intro signed_take_bit_int_eq_self) simp_all
  finally show ?case by (simp add: algebra_simps)
qed

lemma loop_inactive: "\<not> active s \<Longrightarrow> loop clk s = Some (s, [])"
  by (simp add: loop_def)

lemma host_loop_inactive: "\<not> active s \<Longrightarrow> host_loop clks s = Some (s, [])"
  by (induction clks) (simp_all add: loop_inactive)

text \<open>
  The unsigned test of \<^verbatim>\<open>callAt\<close> never holds, so \<^verbatim>\<open>callAt\<close> accepts every deadline.
\<close>

lemma callAt_accepts:
  "callAt t futureTime s = (s\<lparr>timeout := futureTime, periodic := False, active := True\<rparr>, True)"
  by (simp add: callAt_def)

text \<open>
  \<^verbatim>\<open>callIn\<close> decides on the member \<^verbatim>\<open>interval\<close>, whatever the delay it is given.
\<close>

lemma callIn_decides_on_member:
  "callIn t d s =
     (if sint (interval s) < 0 then (s, False)
      else (s\<lparr>timeout := tick t s + d, periodic := False, active := True\<rparr>, True))"
  by (simp add: callIn_def tick_def Let_def)

lemma advance_fields:
  "active (advance s j) = active s" "periodic (advance s j) = periodic s"
  "interval (advance s j) = interval s" "microseconds (advance s j) = microseconds s"
  "taskToCall (advance s j) = taskToCall s" "taskToCallTakesPtr (advance s j) = taskToCallTakesPtr s"
  "pointerParam (advance s j) = pointerParam s"
  "timeout (advance s j) = timeout s + of_nat j * interval s"
  by (simp_all add: advance_def)

lemma tick_advance: "tick t (advance s j) = tick t s"
  by (simp add: tick_def advance_def)

lemma remaining_advance:
  "active s \<Longrightarrow> remaining t (advance s j) = (timeout s - tick t s) + of_nat j * interval s"
  by (simp add: remaining_active advance_fields tick_advance)

text \<open>Division facts for the number of rounds.\<close>

lemma rounds_below:
  fixes d I :: int
  assumes "0 < I" "int j < - d div I + 1"
  shows "d + int j * I \<le> 0"
proof -
  have "int j \<le> - d div I" using assms(2) by simp
  then have "int j * I \<le> (- d div I) * I"
    using assms(1) by (simp add: mult_right_mono)
  moreover have "- d = (- d div I) * I + (- d) mod I" by simp
  moreover have "0 \<le> (- d) mod I" using assms(1) by simp
  ultimately show ?thesis by linarith
qed

lemma rounds_above:
  fixes d I :: int
  assumes "0 < I"
  shows "0 < d + (- d div I + 1) * I" and "d + (- d div I + 1) * I \<le> I"
proof -
  have split: "- d = (- d div I) * I + (- d) mod I" by simp
  have lo: "0 \<le> (- d) mod I" and hi: "(- d) mod I < I" using assms by simp_all
  have expand: "(- d div I + 1) * I = (- d div I) * I + I" by (simp add: algebra_simps)
  show "0 < d + (- d div I + 1) * I" using split hi expand by linarith
  show "d + (- d div I + 1) * I \<le> I" using split lo expand by linarith
qed

lemma int_rounds:
  "sint (timeout s - tick t s) \<le> 0 \<Longrightarrow> 0 < sint (interval s) \<Longrightarrow>
   int (rounds t s) = - sint (timeout s - tick t s) div sint (interval s) + 1"
  by (simp add: rounds_def pos_imp_zdiv_nonneg_iff)

lemma sint_late_task:
  assumes act: "active s" and pos: "0 < sint (interval s)"
    and due: "sint (timeout s - tick t s) \<le> 0"
    and j: "j \<le> rounds t s"
  shows "sint (remaining t (advance s j)) = sint (timeout s - tick t s) + int j * sint (interval s)"
proof -
  let ?d = "sint (timeout s - tick t s)" and ?I = "sint (interval s)"
  have "int j \<le> - ?d div ?I + 1"
    using j int_rounds [OF due pos] by linarith
  then have "int j * ?I \<le> (- ?d div ?I + 1) * ?I"
    using pos by (simp add: mult_right_mono)
  then have "?d + int j * ?I \<le> ?I"
    using rounds_above(2) [OF pos, of ?d] by linarith
  moreover have "?I < 2 ^ 31" using sint_lt [of "interval s"] by simp
  ultimately have "?d + int j * ?I < 2 ^ 31" by linarith
  then have "sint ((timeout s - tick t s) + of_nat j * interval s) = ?d + int j * ?I"
    using pos by (intro sint_add_ticks) simp_all
  then show ?thesis by (simp add: remaining_advance [OF act])
qed

lemma loop_while_catch_up:
  assumes act: "active s" and pos: "0 < sint (interval s)"
    and frozen: "\<And>n. tick (clk n) s = tick t s"
    and due: "sint (timeout s - tick t s) \<le> 0"
  shows "loop_while clk m s = Some (advance s (rounds t s))"
proof -
  let ?d = "sint (timeout s - tick t s)" and ?I = "sint (interval s)" and ?k = "rounds t s"
  have rem: "sint (remaining (clk n) (advance s j)) = ?d + int j * ?I" if "j \<le> ?k" for n j
  proof -
    have "remaining (clk n) (advance s j) = remaining t (advance s j)"
      by (simp add: remaining_advance [OF act] frozen)
    then show ?thesis using sint_late_task [OF act pos due that] by simp
  qed
  have before: "sint (remaining (clk (m + j)) (advance s j)) \<le> 0" if "j < ?k" for j
  proof -
    have "int j < - ?d div ?I + 1" using that int_rounds [OF due pos] by linarith
    then have "?d + int j * ?I \<le> 0" using pos by (intro rounds_below)
    then show ?thesis using rem [of j "m + j"] that by simp
  qed
  have "0 < ?d + int ?k * ?I"
    using rounds_above(1) [OF pos, of ?d] int_rounds [OF due pos] by simp
  then have after: "0 < sint (remaining (clk (m + ?k)) (advance s ?k))"
    using rem [of ?k "m + ?k"] by simp
  have "loop_while clk m s = loop_while clk (m + ?k) (advance s ?k)"
    using before by (rule loop_while_skip)
  also have "\<dots> = Some (advance s ?k)"
    using after by (rule loop_while_exit)
  finally show ?thesis .
qed

lemma loop_periodic_due:
  "active s \<Longrightarrow> periodic s \<Longrightarrow> sint (remaining (clk 0) s) \<le> 0 \<Longrightarrow>
   loop clk s = (case loop_while clk 1 s of None \<Rightarrow> None | Some s' \<Rightarrow> Some (s', callTask s'))"
  by (simp add: loop_def)

lemma loop_one_shot_due:
  "active s \<Longrightarrow> \<not> periodic s \<Longrightarrow> sint (remaining (clk 0) s) \<le> 0 \<Longrightarrow>
   loop clk s = Some (s\<lparr>active := False\<rparr>, callTask (s\<lparr>active := False\<rparr>))"
  by (simp add: loop_def Let_def)

lemma loop_not_due:
  "active s \<Longrightarrow> 0 < sint (remaining (clk 0) s) \<Longrightarrow> loop clk s = Some (s, [])"
  by (simp add: loop_def)

lemma callTask_bound:
  "taskToCall s \<noteq> None \<or> taskToCallTakesPtr s \<noteq> None \<Longrightarrow> length (callTask s) = 1"
  by (auto simp: callTask_def split: option.splits)

lemma callTask_sees: "c \<in> set (callTask s) \<Longrightarrow> snd c = s"
  by (auto simp: callTask_def split: option.splits)

lemma advance_zero_interval: "interval s = 0 \<Longrightarrow> advance s j = s"
  by (simp add: advance_def)

lemma loop_zero_interval_spins:
  assumes act: "active s" and per: "periodic s" and zero: "interval s = 0"
    and stays: "\<And>n. sint (timeout s - tick (clk n) s) \<le> 0"
  shows "loop clk s = None"
proof -
  have "sint (remaining (clk (1 + j)) (advance s j)) \<le> 0" for j
    using stays [of "1 + j"] by (simp add: advance_zero_interval [OF zero] remaining_active [OF act])
  then have "loop_while clk 1 s = None"
    by (rule loop_while_diverge)
  moreover have "sint (remaining (clk 0) s) \<le> 0"
    using stays [of 0] by (simp add: remaining_active [OF act])
  ultimately show ?thesis
    using loop_periodic_due [of s clk] act per by simp
qed

lemma loop_zero_interval_returns:
  assumes act: "active s" and per: "periodic s" and zero: "interval s = 0"
    and due: "sint (timeout s - tick (clk 0) s) \<le> 0"
    and later: "0 < sint (timeout s - tick (clk n) s)"
  shows "loop clk s = Some (s, callTask s)"
proof -
  define m where "m = (LEAST n. 0 < sint (timeout s - tick (clk n) s))"
  have m: "0 < sint (timeout s - tick (clk m) s)"
    unfolding m_def using later by (rule LeastI)
  have below: "sint (timeout s - tick (clk j) s) \<le> 0" if "j < m" for j
    using not_less_Least [of j "\<lambda>n. 0 < sint (timeout s - tick (clk n) s)"] that
    by (simp add: m_def)
  have "m \<noteq> 0" using m due by (cases m) auto
  then have m1: "1 + (m - 1) = m" by simp
  have "sint (remaining (clk (1 + j)) (advance s j)) \<le> 0" if "j < m - 1" for j
    using below [of "1 + j"] that
    by (simp add: advance_zero_interval [OF zero] remaining_active [OF act])
  then have "loop_while clk 1 s = loop_while clk (1 + (m - 1)) (advance s (m - 1))"
    by (rule loop_while_skip)
  also have "\<dots> = loop_while clk m s"
    by (simp only: m1 advance_zero_interval [OF zero])
  also have "\<dots> = Some s"
    using m by (intro loop_while_exit) (simp add: remaining_active [OF act])
  finally have "loop_while clk 1 s = Some s" .
  moreover have "sint (remaining (clk 0) s) \<le> 0"
    using due by (simp add: remaining_active [OF act])
  ultimately show ?thesis
    using loop_periodic_due [of s clk] act per by simp
qed

lemma callEvery_zero:
  "fst (callEvery t 0 s0) = s0\<lparr>interval := 0, timeout := tick t s0, periodic := True, active := True\<rparr>"
  by (simp add: callEvery_def tick_def Let_def)

text \<open>
  The \<^verbatim>\<open>while\<close> of \<^verbatim>\<open>loop()\<close> under any readings of the counter: it ends at the first
  round whose reading finds the deadline ahead, and does not end when no round does.
\<close>

lemma remaining_after_rounds:
  "active s \<Longrightarrow>
   remaining t (advance s j) = timeout s + of_nat j * interval s - tick t s"
  by (simp add: remaining_advance)

lemma loop_while_first_ahead:
  assumes act: "active s"
    and ahead: "0 < sint (timeout s + of_nat k * interval s - tick (clk (m + k)) s)"
    and before: "\<And>j. j < k \<Longrightarrow> sint (timeout s + of_nat j * interval s - tick (clk (m + j)) s) \<le> 0"
  shows "loop_while clk m s = Some (advance s k)"
proof -
  note rem = remaining_after_rounds [OF act]
  have "loop_while clk m s = loop_while clk (m + k) (advance s k)"
    using before by (intro loop_while_skip) (simp add: rem)
  also have "\<dots> = Some (advance s k)"
    using ahead by (intro loop_while_exit) (simp add: rem)
  finally show ?thesis .
qed

lemma loop_while_never_ahead:
  assumes act: "active s"
    and never: "\<And>j. sint (timeout s + of_nat j * interval s - tick (clk (m + j)) s) \<le> 0"
  shows "loop_while clk m s = None"
proof (rule loop_while_diverge)
  fix j
  show "sint (remaining (clk (m + j)) (advance s j)) \<le> 0"
    using never [of j] by (simp only: remaining_after_rounds [OF act])
qed

lemma loop_periodic_returns:
  assumes act: "active s" and per: "periodic s"
    and due: "sint (timeout s - tick (clk 0) s) \<le> 0"
    and ahead: "0 < sint (timeout s + of_nat k * interval s - tick (clk (Suc k)) s)"
    and before: "\<And>j. j < k \<Longrightarrow> sint (timeout s + of_nat j * interval s - tick (clk (Suc j)) s) \<le> 0"
  shows "loop clk s = Some (advance s k, callTask (advance s k))"
proof -
  have "loop_while clk 1 s = Some (advance s k)"
    using act ahead before by (intro loop_while_first_ahead) simp_all
  moreover have "sint (remaining (clk 0) s) \<le> 0"
    using due by (simp add: remaining_active [OF act])
  ultimately show ?thesis
    using loop_periodic_due [of s clk] act per by simp
qed

lemma loop_periodic_spins:
  assumes act: "active s" and per: "periodic s"
    and due: "sint (timeout s - tick (clk 0) s) \<le> 0"
    and never: "\<And>j. sint (timeout s + of_nat j * interval s - tick (clk (Suc j)) s) \<le> 0"
  shows "loop clk s = None"
proof -
  have "loop_while clk 1 s = None"
    using act never by (intro loop_while_never_ahead) simp_all
  moreover have "sint (remaining (clk 0) s) \<le> 0"
    using due by (simp add: remaining_active [OF act])
  ultimately show ?thesis
    using loop_periodic_due [of s clk] act per by simp
qed

lemma loop_periodic_None_iff:
  assumes act: "active s" and per: "periodic s"
    and due: "sint (timeout s - tick (clk 0) s) \<le> 0"
  shows "loop clk s = None \<longleftrightarrow>
         (\<forall>j. sint (timeout s + of_nat j * interval s - tick (clk (Suc j)) s) \<le> 0)"
proof
  assume none: "loop clk s = None"
  show "\<forall>j. sint (timeout s + of_nat j * interval s - tick (clk (Suc j)) s) \<le> 0"
  proof (rule ccontr)
    let ?A = "\<lambda>j. 0 < sint (timeout s + of_nat j * interval s - tick (clk (Suc j)) s)"
    assume "\<not> (\<forall>j. sint (timeout s + of_nat j * interval s - tick (clk (Suc j)) s) \<le> 0)"
    then obtain j where "?A j" by (auto simp: not_le)
    then have first: "?A (LEAST j. ?A j)" by (rule LeastI)
    have "sint (timeout s + of_nat i * interval s - tick (clk (Suc i)) s) \<le> 0"
      if "i < (LEAST j. ?A j)" for i
      using not_less_Least [OF that] by simp
    with act per due first
    have "loop clk s = Some (advance s (LEAST j. ?A j), callTask (advance s (LEAST j. ?A j)))"
      by (intro loop_periodic_returns) simp_all
    with none show False by simp
  qed
next
  assume "\<forall>j. sint (timeout s + of_nat j * interval s - tick (clk (Suc j)) s) \<le> 0"
  with act per due show "loop clk s = None"
    by (intro loop_periodic_spins) simp_all
qed

text \<open>
  The overload of \<^verbatim>\<open>callIn\<close> with a pointer stores the pointer before the delay is
  looked at, so also when the call is then rejected.
\<close>

lemma callIn_ptr_stores_pointer:
  "pointerParam (callIn_ptr t d p s) = p"
  by (simp add: callIn_ptr_def callIn_decides_on_member)

section \<open>The claims\<close>

subsection \<open>C1: callAt and deadlines outside the forward half-window\<close>

text \<open>
  C1 says that \<^verbatim>\<open>callAt\<close> returns false and changes nothing when the deadline minus
  the current tick count, read as signed, is negative. The code does not: with the
  millisecond counter at 1000, \<^verbatim>\<open>callAt(999)\<close> on the task \<open>blink\<close> has the signed
  difference \<open>-1\<close>, and yet returns true, stores the deadline 999 and activates the
  task.
\<close>

theorem callAt_past_deadline:
  "callAt \<lparr>millis = 1000, micros = 0\<rparr> 999 blink =
     (blink\<lparr>timeout := 999, periodic := False, active := True\<rparr>, True)
   \<and> sint (999 - 1000 :: 32 word) = - 1"
  by (simp add: callAt_def)

subsection \<open>C2: callIn and negative delays\<close>

text \<open>
  C2 says that \<^verbatim>\<open>callIn\<close>, with or without a pointer, returns false and changes
  nothing for every negative delay. The code does not: on the task \<open>blink\<close>, whose
  member \<^verbatim>\<open>interval\<close> is 0, with the millisecond counter at 1000, \<^verbatim>\<open>callIn(-5)\<close>
  returns true, sets the deadline to 995 and activates the task; \<^verbatim>\<open>callIn(-5, p)\<close>
  with the pointer 7 does the same to the members and stores the pointer.
\<close>

theorem callIn_negative_delay:
  "callIn \<lparr>millis = 1000, micros = 0\<rparr> (- 5) blink =
     (blink\<lparr>timeout := 995, periodic := False, active := True\<rparr>, True)
   \<and> callIn_ptr \<lparr>millis = 1000, micros = 0\<rparr> (- 5) 7 blink =
     blink\<lparr>pointerParam := 7, timeout := 995, periodic := False, active := True\<rparr>
   \<and> sint (- 5 :: 32 word) = - 5"
  by (simp add: callIn_def callIn_ptr_def blink_def zeroed_def TinyTask_TaskToCall_def)

subsection \<open>C3: remaining on an overdue task\<close>

text \<open>
  C3 says that \<^verbatim>\<open>remaining()\<close> returns exactly 0, never a negative number, for an
  active task whose deadline has passed. The code does not: for an active task with
  deadline 1000 read at the millisecond tick 1001 it returns \<open>-1\<close>, the very value
  that stands for "not scheduled".
\<close>

theorem remaining_overdue:
  "remaining \<lparr>millis = 1001, micros = 0\<rparr> (blink\<lparr>timeout := 1000, active := True\<rparr>) = - 1
   \<and> sint (remaining \<lparr>millis = 1001, micros = 0\<rparr> (blink\<lparr>timeout := 1000, active := True\<rparr>)) = - 1"
  by (simp add: remaining_def blink_def zeroed_def TinyTask_TaskToCall_def)

subsection \<open>C4: one poll of an overdue periodic task\<close>

text \<open>
  C4, amended: take an active periodic task with an interval \<open>I > 0\<close> and a callback
  bound, that \<^verbatim>\<open>loop()\<close> finds due or overdue at its first reading (the deadline
  minus the tick count, read as signed, is at most 0). The \<^verbatim>\<open>while\<close> reads the
  counter again at each test, so:
  \<^item> \<^verbatim>\<open>loop()\<close> does not return exactly when no number \<open>j\<close> of added intervals puts
    the deadline ahead of the reading of test \<open>j + 1\<close>;
  \<^item> for the first \<open>k\<close> that does, \<^verbatim>\<open>loop()\<close> returns, has entered the callback exactly
    once, and leaves the deadline at the old deadline plus \<open>k * I\<close>, the task active
    and periodic, the other members unchanged;
  \<^item> when all the readings of this \<^verbatim>\<open>loop()\<close> give the tick of its call, it returns
    with \<open>k = (- d) div I + 1\<close> for the signed lateness \<open>d\<close>: the deadline is the least
    old deadline plus \<open>k * I\<close> strictly after the tick, ahead by at most \<open>I\<close>.
\<close>

theorem loop_periodic_catch_up:
  assumes act: "active s" and per: "periodic s" and pos: "0 < sint (interval s)"
    and due: "sint (timeout s - tick (clk 0) s) \<le> 0"
    and bound: "taskToCall s \<noteq> None \<or> taskToCallTakesPtr s \<noteq> None"
  shows "(loop clk s = None \<longleftrightarrow>
            (\<forall>j. sint (timeout s + of_nat j * interval s - tick (clk (Suc j)) s) \<le> 0))
       \<and> (\<forall>k. 0 < sint (timeout s + of_nat k * interval s - tick (clk (Suc k)) s)
              \<and> (\<forall>j<k. sint (timeout s + of_nat j * interval s - tick (clk (Suc j)) s) \<le> 0)
            \<longrightarrow> loop clk s = Some (advance s k, callTask (advance s k))
                \<and> length (callTask (advance s k)) = 1
                \<and> advance s k = s\<lparr>timeout := timeout s + of_nat k * interval s\<rparr>
                \<and> active (advance s k) \<and> periodic (advance s k))
       \<and> ((\<forall>n. tick (clk n) s = tick (clk 0) s) \<longrightarrow>
            (let k = rounds (clk 0) s; s' = advance s k; now = tick (clk 0) s in
               loop clk s = Some (s', callTask s')
             \<and> length (callTask s') = 1
             \<and> s' = s\<lparr>timeout := timeout s + of_nat k * interval s\<rparr>
             \<and> 0 < k
             \<and> 0 < sint (timeout s' - now)
             \<and> sint (timeout s' - now) \<le> sint (interval s)
             \<and> (\<forall>j<k. sint (timeout s + of_nat j * interval s - now) \<le> 0)
             \<and> active s' \<and> periodic s'))"
proof (intro conjI)
  show "loop clk s = None \<longleftrightarrow>
          (\<forall>j. sint (timeout s + of_nat j * interval s - tick (clk (Suc j)) s) \<le> 0)"
    using act per due by (rule loop_periodic_None_iff)
next
  show "\<forall>k. 0 < sint (timeout s + of_nat k * interval s - tick (clk (Suc k)) s)
              \<and> (\<forall>j<k. sint (timeout s + of_nat j * interval s - tick (clk (Suc j)) s) \<le> 0)
            \<longrightarrow> loop clk s = Some (advance s k, callTask (advance s k))
                \<and> length (callTask (advance s k)) = 1
                \<and> advance s k = s\<lparr>timeout := timeout s + of_nat k * interval s\<rparr>
                \<and> active (advance s k) \<and> periodic (advance s k)"
  proof (intro allI impI, elim conjE)
    fix k
    assume ahead: "0 < sint (timeout s + of_nat k * interval s - tick (clk (Suc k)) s)"
      and before: "\<forall>j<k. sint (timeout s + of_nat j * interval s - tick (clk (Suc j)) s) \<le> 0"
    have "loop clk s = Some (advance s k, callTask (advance s k))"
      using act per due ahead before by (intro loop_periodic_returns) simp_all
    moreover have "length (callTask (advance s k)) = 1"
      using bound by (intro callTask_bound) (simp add: advance_fields)
    ultimately show "loop clk s = Some (advance s k, callTask (advance s k))
        \<and> length (callTask (advance s k)) = 1
        \<and> advance s k = s\<lparr>timeout := timeout s + of_nat k * interval s\<rparr>
        \<and> active (advance s k) \<and> periodic (advance s k)"
      using act per by (simp add: advance_fields advance_def)
  qed
next
  show "(\<forall>n. tick (clk n) s = tick (clk 0) s) \<longrightarrow>
            (let k = rounds (clk 0) s; s' = advance s k; now = tick (clk 0) s in
               loop clk s = Some (s', callTask s')
             \<and> length (callTask s') = 1
             \<and> s' = s\<lparr>timeout := timeout s + of_nat k * interval s\<rparr>
             \<and> 0 < k
             \<and> 0 < sint (timeout s' - now)
             \<and> sint (timeout s' - now) \<le> sint (interval s)
             \<and> (\<forall>j<k. sint (timeout s + of_nat j * interval s - now) \<le> 0)
             \<and> active s' \<and> periodic s')"
  proof
    assume frozen: "\<forall>n. tick (clk n) s = tick (clk 0) s"
    let ?k = "rounds (clk 0) s" and ?now = "tick (clk 0) s"
    let ?s' = "advance s ?k"
    have due': "sint (remaining (clk 0) s) \<le> 0"
      using due by (simp add: remaining_active [OF act])
    have "loop_while clk 1 s = Some ?s'"
      using act pos frozen due by (intro loop_while_catch_up) simp_all
    then have run: "loop clk s = Some (?s', callTask ?s')"
      using loop_periodic_due [of s clk] act per due' by simp
    have once: "length (callTask ?s') = 1"
      using bound by (intro callTask_bound) (simp add: advance_fields)
    have at: "sint (timeout (advance s j) - ?now) = sint (timeout s - ?now) + int j * sint (interval s)"
      if "j \<le> ?k" for j
      using sint_late_task [OF act pos due that]
      by (simp add: remaining_advance [OF act] advance_fields algebra_simps)
    have k: "int ?k = - sint (timeout s - ?now) div sint (interval s) + 1"
      using due pos by (rule int_rounds)
    have ahead: "0 < sint (timeout ?s' - ?now)"
      using at [of ?k] rounds_above(1) [OF pos, of "sint (timeout s - ?now)"] k by simp
    have near: "sint (timeout ?s' - ?now) \<le> sint (interval s)"
      using at [of ?k] rounds_above(2) [OF pos, of "sint (timeout s - ?now)"] k by simp
    have least: "sint (timeout s + of_nat j * interval s - ?now) \<le> 0" if "j < ?k" for j
    proof -
      have "int j < - sint (timeout s - ?now) div sint (interval s) + 1"
        using that k by linarith
      then have "sint (timeout s - ?now) + int j * sint (interval s) \<le> 0"
        using pos by (intro rounds_below)
      then show ?thesis using at [of j] that by (simp add: advance_fields)
    qed
    have "0 < ?k" by (simp add: rounds_def)
    with run once ahead near least act per
    show "let k = rounds (clk 0) s; s' = advance s k; now = tick (clk 0) s in
               loop clk s = Some (s', callTask s')
             \<and> length (callTask s') = 1
             \<and> s' = s\<lparr>timeout := timeout s + of_nat k * interval s\<rparr>
             \<and> 0 < k
             \<and> 0 < sint (timeout s' - now)
             \<and> sint (timeout s' - now) \<le> sint (interval s)
             \<and> (\<forall>j<k. sint (timeout s + of_nat j * interval s - now) \<le> 0)
             \<and> active s' \<and> periodic s'"
      by (simp add: Let_def advance_fields advance_def)
  qed
qed

theorem loop_periodic_catch_up_witness:
  "active (blink\<lparr>interval := 250, timeout := 1250, periodic := True, active := True\<rparr>)
   \<and> sint (250 :: 32 word) = 250
   \<and> sint (1250 - 2100 :: 32 word) = - 850
   \<and> rounds (standing 2100 0) (blink\<lparr>interval := 250, timeout := 1250, periodic := True, active := True\<rparr>) = 4
   \<and> loop (standing 2100) (blink\<lparr>interval := 250, timeout := 1250, periodic := True, active := True\<rparr>) =
       Some (blink\<lparr>interval := 250, timeout := 2250, periodic := True, active := True\<rparr>,
             [(Call_taskToCall 1, blink\<lparr>interval := 250, timeout := 2250, periodic := True, active := True\<rparr>)])
   \<and> loop (stepping 2100 100) (blink\<lparr>interval := 250, timeout := 1250, periodic := True, active := True\<rparr>) =
       Some (blink\<lparr>interval := 250, timeout := 3000, periodic := True, active := True\<rparr>,
             [(Call_taskToCall 1, blink\<lparr>interval := 250, timeout := 3000, periodic := True, active := True\<rparr>)])"
proof -
  let ?s = "blink\<lparr>interval := 250, timeout := 1250, periodic := True, active := True\<rparr>"
  have still: "loop (standing 2100) ?s =
       Some (blink\<lparr>interval := 250, timeout := 2250, periodic := True, active := True\<rparr>,
             [(Call_taskToCall 1, blink\<lparr>interval := 250, timeout := 2250, periodic := True, active := True\<rparr>)])
     \<and> rounds (standing 2100 0) ?s = 4"
    using loop_periodic_catch_up [of ?s "standing 2100"]
    by (simp add: Let_def rounds_def advance_def tick_def standing_def callTask_def
        blink_def zeroed_def TinyTask_TaskToCall_def)
  have before: "\<forall>j<7. sint (timeout ?s + of_nat j * interval ?s - tick (stepping 2100 100 (Suc j)) ?s) \<le> 0"
    by (simp add: eval_nat_numeral less_Suc_eq tick_def stepping_def
        blink_def zeroed_def TinyTask_TaskToCall_def)
  have running: "loop (stepping 2100 100) ?s =
       Some (blink\<lparr>interval := 250, timeout := 3000, periodic := True, active := True\<rparr>,
             [(Call_taskToCall 1, blink\<lparr>interval := 250, timeout := 3000, periodic := True, active := True\<rparr>)])"
    using loop_periodic_catch_up [of ?s "stepping 2100 100", THEN conjunct2, THEN conjunct1, THEN spec, of 7] before
    by (simp add: advance_def tick_def stepping_def callTask_def
        blink_def zeroed_def TinyTask_TaskToCall_def)
  from still running show ?thesis by simp
qed

text \<open>
  C4 as stated fails: a task in microsecond mode with the interval 4 and the
  deadline 1004 is 996 ticks late at the reading 2000; with a counter that advances
  by 4 ticks from one reading to the next, every round of the \<^verbatim>\<open>while\<close> finds the
  deadline 1000 ticks behind, and \<^verbatim>\<open>loop()\<close> neither returns nor enters the callback.
\<close>

theorem loop_periodic_never_returns:
  "active (blink\<lparr>microseconds := True, interval := 4, timeout := 1004, periodic := True, active := True\<rparr>)
   \<and> periodic (blink\<lparr>microseconds := True, interval := 4, timeout := 1004, periodic := True, active := True\<rparr>)
   \<and> 0 < sint (interval (blink\<lparr>microseconds := True, interval := 4, timeout := 1004, periodic := True, active := True\<rparr>))
   \<and> sint (remaining (stepping 2000 4 0)
        (blink\<lparr>microseconds := True, interval := 4, timeout := 1004, periodic := True, active := True\<rparr>)) = - 996
   \<and> loop (stepping 2000 4)
        (blink\<lparr>microseconds := True, interval := 4, timeout := 1004, periodic := True, active := True\<rparr>) = None"
proof -
  let ?s = "blink\<lparr>microseconds := True, interval := 4, timeout := 1004, periodic := True, active := True\<rparr>"
  have behind: "timeout ?s + of_nat j * interval ?s - tick (stepping 2000 4 (Suc j)) ?s = - 1000" for j
    by (simp add: tick_def stepping_def algebra_simps)
  have "loop (stepping 2000 4) ?s = None"
  proof (rule loop_periodic_spins)
    show "sint (timeout ?s + of_nat j * interval ?s - tick (stepping 2000 4 (Suc j)) ?s) \<le> 0" for j
      by (simp only: behind) simp
  qed (simp_all add: tick_def stepping_def)
  then show ?thesis
    by (simp add: remaining_def stepping_def)
qed

subsection \<open>C5: the one-shot scenario\<close>

text \<open>
  C5: construct a task with a plain callback \<open>f\<close> in any storage, and let
  \<^verbatim>\<open>callIn(250)\<close> at the millisecond tick 1000 be accepted. Then the deadline is
  1250, the task is active and not periodic; \<^verbatim>\<open>loop()\<close> at tick 1249 enters no
  callback and leaves the task as it is; \<^verbatim>\<open>loop()\<close> at tick 1250 enters \<open>f\<close> exactly
  once and leaves \<^verbatim>\<open>active\<close> false. In general \<^verbatim>\<open>loop()\<close> on a due active one-shot
  task clears \<^verbatim>\<open>active\<close> first: every callback it enters finds \<^verbatim>\<open>active\<close> false.
\<close>

theorem one_shot_scenario:
  assumes accepted: "snd (callIn \<lparr>millis = 1000, micros = us\<rparr> 250 (TinyTask_TaskToCall (Some f) raw))"
  shows "let s = fst (callIn \<lparr>millis = 1000, micros = us\<rparr> 250 (TinyTask_TaskToCall (Some f) raw)) in
           timeout s = 1250 \<and> active s \<and> \<not> periodic s
         \<and> (millis (clk 0) = 1249 \<longrightarrow> loop clk s = Some (s, []))
         \<and> (millis (clk 0) = 1250 \<longrightarrow>
              loop clk s = Some (s\<lparr>active := False\<rparr>, [(Call_taskToCall f, s\<lparr>active := False\<rparr>)]))
         \<and> (active u \<and> \<not> periodic u \<and> sint (remaining (clk' 0) u) \<le> 0 \<longrightarrow>
              loop clk' u = Some (u\<lparr>active := False\<rparr>, callTask (u\<lparr>active := False\<rparr>))
              \<and> (\<forall>c \<in> set (callTask (u\<lparr>active := False\<rparr>)). \<not> active (snd c)))"
proof -
  let ?new = "TinyTask_TaskToCall (Some f) raw"
  let ?s = "fst (callIn \<lparr>millis = 1000, micros = us\<rparr> 250 ?new)"
  have ok: "\<not> sint (interval ?new) < 0"
    using accepted by (auto simp: callIn_decides_on_member split: if_splits)
  have s: "?s = ?new\<lparr>timeout := 1250, periodic := False, active := True\<rparr>"
    using ok by (simp add: callIn_decides_on_member tick_def TinyTask_TaskToCall_def)
  have fields: "timeout ?s = 1250" "active ?s" "\<not> periodic ?s" "\<not> microseconds ?s"
    "taskToCall ?s = Some f"
    unfolding s by (simp_all add: TinyTask_TaskToCall_def)
  have early: "loop clk ?s = Some (?s, [])" if "millis (clk 0) = 1249"
  proof -
    have "remaining (clk 0) ?s = 1"
      using fields that by (simp add: remaining_active tick_def)
    then show ?thesis using fields by (intro loop_not_due) simp_all
  qed
  have fire: "loop clk ?s = Some (?s\<lparr>active := False\<rparr>, [(Call_taskToCall f, ?s\<lparr>active := False\<rparr>)])"
    if "millis (clk 0) = 1250"
  proof -
    have "remaining (clk 0) ?s = 0"
      using fields that by (simp add: remaining_active tick_def)
    then have "loop clk ?s = Some (?s\<lparr>active := False\<rparr>, callTask (?s\<lparr>active := False\<rparr>))"
      using fields by (intro loop_one_shot_due) simp_all
    moreover have "callTask (?s\<lparr>active := False\<rparr>) = [(Call_taskToCall f, ?s\<lparr>active := False\<rparr>)]"
      using fields by (simp add: callTask_def)
    ultimately show ?thesis by simp
  qed
  have general: "loop clk' u = Some (u\<lparr>active := False\<rparr>, callTask (u\<lparr>active := False\<rparr>))
      \<and> (\<forall>c \<in> set (callTask (u\<lparr>active := False\<rparr>)). \<not> active (snd c))"
    if "active u \<and> \<not> periodic u \<and> sint (remaining (clk' 0) u) \<le> 0"
    using that by (auto simp: loop_one_shot_due dest: callTask_sees)
  from fields early fire general show ?thesis
    unfolding Let_def by blast
qed

theorem one_shot_scenario_witness:
  "snd (callIn \<lparr>millis = 1000, micros = 0\<rparr> 250 (TinyTask_TaskToCall (Some 1) zeroed))
   \<and> loop (standing 1249) (blink\<lparr>timeout := 1250, periodic := False, active := True\<rparr>) =
       Some (blink\<lparr>timeout := 1250, periodic := False, active := True\<rparr>, [])
   \<and> loop (standing 1250) (blink\<lparr>timeout := 1250, periodic := False, active := True\<rparr>) =
       Some (blink\<lparr>timeout := 1250, periodic := False, active := False\<rparr>,
             [(Call_taskToCall 1, blink\<lparr>timeout := 1250, periodic := False, active := False\<rparr>)])
   \<and> loop (standing 2000) (blink\<lparr>timeout := 1250, periodic := False, active := True\<rparr>) =
       Some (blink\<lparr>timeout := 1250, periodic := False, active := False\<rparr>,
             [(Call_taskToCall 1, blink\<lparr>timeout := 1250, periodic := False, active := False\<rparr>)])"
  using one_shot_scenario [of 0 1 zeroed "standing 1249"
      "blink\<lparr>timeout := 1250, periodic := False, active := True\<rparr>" "standing 2000"]
    one_shot_scenario [of 0 1 zeroed "standing 1250"
      "blink\<lparr>timeout := 1250, periodic := False, active := True\<rparr>" "standing 2000"]
  by (simp add: Let_def callIn_def remaining_def standing_def callTask_def
      blink_def zeroed_def TinyTask_TaskToCall_def)

subsection \<open>C6: callEvery\<close>

text \<open>
  C6: for every negative interval \<^verbatim>\<open>callEvery\<close> returns false and leaves the task as
  it is (so \<^verbatim>\<open>active\<close>, \<^verbatim>\<open>timeout\<close> and \<^verbatim>\<open>interval\<close> are unchanged); for every
  non-negative interval it stores the interval, sets the deadline to the current tick
  plus the interval, sets \<^verbatim>\<open>periodic\<close> and \<^verbatim>\<open>active\<close>, and returns true.
\<close>

theorem callEvery_rejects_or_arms:
  "(sint i < 0 \<longrightarrow> callEvery t i s = (s, False)) \<and>
   (0 \<le> sint i \<longrightarrow>
      callEvery t i s =
        (s\<lparr>interval := i, timeout := tick t s + i, periodic := True, active := True\<rparr>, True))"
  by (simp add: callEvery_def tick_def Let_def)

theorem callEvery_rejects_or_arms_witness:
  "sint (- 5 :: 32 word) < 0 \<and> 0 \<le> sint (250 :: 32 word) \<and>
   callEvery \<lparr>millis = 1000, micros = 0\<rparr> (- 5) blink = (blink, False) \<and>
   callEvery \<lparr>millis = 1000, micros = 0\<rparr> 250 blink =
     (blink\<lparr>interval := 250, timeout := 1250, periodic := True, active := True\<rparr>, True)"
  using callEvery_rejects_or_arms [of "- 5" "\<lparr>millis = 1000, micros = 0\<rparr>" blink]
    callEvery_rejects_or_arms [of 250 "\<lparr>millis = 1000, micros = 0\<rparr>" blink]
  by (simp add: tick_def blink_def zeroed_def TinyTask_TaskToCall_def)

subsection \<open>C7: cancel\<close>

text \<open>
  C7: \<^verbatim>\<open>cancel()\<close> clears \<^verbatim>\<open>active\<close> and nothing else, whatever the task was; a second
  \<^verbatim>\<open>cancel()\<close> changes nothing; on the cancelled task \<^verbatim>\<open>loop()\<close> returns, enters no
  callback and leaves the task cancelled, for every reading of the counter and over
  any number of rounds of the host's loop; \<^verbatim>\<open>remaining()\<close> is \<open>-1\<close>, in particular
  after \<^verbatim>\<open>callAt(now + 100)\<close> followed by \<^verbatim>\<open>cancel()\<close>.
\<close>

theorem cancel_deactivates:
  "cancel s = s\<lparr>active := False\<rparr>
   \<and> active (cancel s) = False
   \<and> cancel (cancel s) = cancel s
   \<and> loop clk (cancel s) = Some (cancel s, [])
   \<and> host_loop clks (cancel s) = Some (cancel s, [])
   \<and> remaining t (cancel s) = - 1
   \<and> sint (remaining t (cancel s)) = - 1
   \<and> remaining t' (cancel (fst (callAt t (tick t s + 100) s))) = - 1"
  by (simp add: cancel_def loop_inactive host_loop_inactive remaining_inactive)

subsection \<open>C9: switching the time unit\<close>

text \<open>
  C9: \<^verbatim>\<open>useMicros()\<close> and \<^verbatim>\<open>useMillis()\<close> write the flag \<^verbatim>\<open>microseconds\<close> and no other
  member: deadline, interval, \<^verbatim>\<open>active\<close>, \<^verbatim>\<open>periodic\<close>, the pointer argument and both
  callback pointers are as before; a deadline computed by an earlier \<^verbatim>\<open>callIn\<close> is
  kept as it is.
\<close>

theorem time_unit_switch_frame:
  "useMicros s = s\<lparr>microseconds := True\<rparr>
   \<and> useMillis s = s\<lparr>microseconds := False\<rparr>
   \<and> timeout (useMicros s) = timeout s \<and> timeout (useMillis s) = timeout s
   \<and> interval (useMicros s) = interval s \<and> interval (useMillis s) = interval s
   \<and> active (useMicros s) = active s \<and> active (useMillis s) = active s
   \<and> periodic (useMicros s) = periodic s \<and> periodic (useMillis s) = periodic s
   \<and> pointerParam (useMicros s) = pointerParam s \<and> pointerParam (useMillis s) = pointerParam s
   \<and> taskToCall (useMicros s) = taskToCall s \<and> taskToCall (useMillis s) = taskToCall s
   \<and> taskToCallTakesPtr (useMicros s) = taskToCallTakesPtr s
   \<and> taskToCallTakesPtr (useMillis s) = taskToCallTakesPtr s
   \<and> timeout (useMicros (fst (callIn t i s))) = timeout (fst (callIn t i s))
   \<and> timeout (useMillis (fst (callIn t i s))) = timeout (fst (callIn t i s))"
  by (simp add: useMicros_def useMillis_def)

subsection \<open>C10: callEvery with the interval 0\<close>

text \<open>
  C10, amended: after \<^verbatim>\<open>callEvery(0)\<close>, a \<^verbatim>\<open>loop()\<close> whose first reading finds the task
  due never moves the deadline. It does not return exactly when every later reading
  of the counter still finds the task due (as with a counter that stands still); as
  soon as one reading puts the deadline ahead in the signed sense, which a running
  counter does once it is more than \<open>2^31\<close> ticks past the deadline, \<^verbatim>\<open>loop()\<close>
  returns with the members unchanged, after entering the callback.
\<close>

theorem callEvery_zero_loop:
  assumes due: "sint (remaining (clk 0) (fst (callEvery t 0 s0))) \<le> 0"
  shows "let s = fst (callEvery t 0 s0) in
           (loop clk s = None \<longleftrightarrow> (\<forall>n. sint (timeout s - tick (clk n) s) \<le> 0))
         \<and> ((\<exists>n. 0 < sint (timeout s - tick (clk n) s)) \<longrightarrow> loop clk s = Some (s, callTask s))"
proof -
  let ?s = "fst (callEvery t 0 s0)"
  have fields: "active ?s" "periodic ?s" "interval ?s = 0"
    by (simp_all add: callEvery_zero)
  have due': "sint (timeout ?s - tick (clk 0) ?s) \<le> 0"
    using due by (simp add: remaining_active [OF fields(1)])
  have ret: "loop clk ?s = Some (?s, callTask ?s)" if "0 < sint (timeout ?s - tick (clk n) ?s)" for n
    using fields due' that by (rule loop_zero_interval_returns)
  have spin: "loop clk ?s = None" if "\<forall>n. sint (timeout ?s - tick (clk n) ?s) \<le> 0"
    using fields that by (intro loop_zero_interval_spins) simp_all
  have "loop clk ?s = None \<longleftrightarrow> (\<forall>n. sint (timeout ?s - tick (clk n) ?s) \<le> 0)"
  proof
    assume none: "loop clk ?s = None"
    show "\<forall>n. sint (timeout ?s - tick (clk n) ?s) \<le> 0"
    proof (rule ccontr)
      assume "\<not> (\<forall>n. sint (timeout ?s - tick (clk n) ?s) \<le> 0)"
      then obtain n where "0 < sint (timeout ?s - tick (clk n) ?s)" by (auto simp: not_le)
      from ret [OF this] none show False by simp
    qed
  next
    assume "\<forall>n. sint (timeout ?s - tick (clk n) ?s) \<le> 0"
    then show "loop clk ?s = None" by (rule spin)
  qed
  moreover have "(\<exists>n. 0 < sint (timeout ?s - tick (clk n) ?s)) \<longrightarrow> loop clk ?s = Some (?s, callTask ?s)"
    using ret by blast
  ultimately show ?thesis unfolding Let_def by blast
qed

theorem callEvery_zero_loop_witness:
  "sint (remaining (standing 1000 0) (fst (callEvery \<lparr>millis = 1000, micros = 0\<rparr> 0 blink))) = 0
   \<and> fst (callEvery \<lparr>millis = 1000, micros = 0\<rparr> 0 blink) =
       blink\<lparr>interval := 0, timeout := 1000, periodic := True, active := True\<rparr>
   \<and> loop (standing 1000) (fst (callEvery \<lparr>millis = 1000, micros = 0\<rparr> 0 blink)) = None"
  using callEvery_zero_loop [of "standing 1000" "\<lparr>millis = 1000, micros = 0\<rparr>" blink]
  by (simp add: Let_def callEvery_def remaining_def tick_def standing_def
      blink_def zeroed_def TinyTask_TaskToCall_def)

text \<open>
  C10 as stated fails: with the task \<open>blink\<close> scheduled by \<^verbatim>\<open>callEvery(0)\<close> at tick 0
  and a counter that advances by one tick per reading, the first \<^verbatim>\<open>loop()\<close> finds
  the task due, spins, and returns after entering the callback once.
\<close>

theorem callEvery_zero_loop_returns:
  "loop counting (fst (callEvery (counting 0) 0 blink)) =
     Some (blink\<lparr>interval := 0, timeout := 0, periodic := True, active := True\<rparr>,
           [(Call_taskToCall 1, blink\<lparr>interval := 0, timeout := 0, periodic := True, active := True\<rparr>)])
   \<and> loop counting (fst (callEvery (counting 0) 0 blink)) \<noteq> None"
proof -
  let ?s = "blink\<lparr>interval := 0, timeout := 0, periodic := True, active := True\<rparr>"
  have s: "fst (callEvery (counting 0) 0 blink) = ?s"
    by (simp add: callEvery_zero tick_def counting_def blink_def zeroed_def TinyTask_TaskToCall_def)
  have "loop counting ?s = Some (?s, callTask ?s)"
  proof (rule loop_zero_interval_returns [where n = 2147483649])
    show "0 < sint (timeout ?s - tick (counting 2147483649) ?s)"
      by (simp add: tick_def counting_def blink_def zeroed_def TinyTask_TaskToCall_def)
  qed (simp_all add: tick_def counting_def)
  moreover have "callTask ?s = [(Call_taskToCall 1, ?s)]"
    by (simp add: callTask_def blink_def zeroed_def TinyTask_TaskToCall_def)
  ultimately show ?thesis by (simp add: s)
qed

end
